theory Spec2Isabelle
  imports
    Main
    "HOL-Library.Word"
    "HOL-Library.Char_ord"
    "HOL-Library.List_Lexorder"
    "HOL-Library.Multiset"
begin

unbundle bit_operations_syntax

section \<open>Signature verification and timestamp freshness of main.go\<close>

text \<open>
  The development embeds \<^verbatim>\<open>VerifySignatureFromQuery\<close> and \<^verbatim>\<open>ValidateTimestamp\<close>
  of \<^verbatim>\<open>main.go\<close>. Go strings are byte sequences: a string is a \<open>char list\<close> (a
  \<open>char\<close> is one byte), a \<^verbatim>\<open>[]byte\<close> is a list of 8-bit words. The order on strings
  that \<^verbatim>\<open>sort.Strings\<close> uses is Go's \<^verbatim>\<open><\<close> on strings, the lexicographic order of
  the bytes; here it is the order of \<open>List_Lexorder\<close> over \<open>Char_ord\<close>, which compares
  characters by their byte value.
\<close>

subsection \<open>Bytes and strings\<close>

type_synonym byte = "8 word"

definition bytes_of :: "string \<Rightarrow> byte list" where
  \<comment> \<open>the conversion \<^verbatim>\<open>[]byte(s)\<close>\<close>
  "bytes_of s = map of_char s"

definition newline :: string where
  "newline = [CHR 0x0A]"

subsection \<open>Go maps\<close>

text \<open>
  A Go map is a finite set of entries with pairwise distinct keys; a \<^verbatim>\<open>range\<close> loop
  visits the entries in an order the language leaves open. A map is modelled as the list
  of its entries in the order a \<^verbatim>\<open>range\<close> loop visits them, so a statement quantified
  over all such lists speaks about every iteration order.
\<close>

type_synonym 'v gomap = "(string \<times> 'v) list"

definition wf_map :: "'v gomap \<Rightarrow> bool" where
  "wf_map m = distinct (map fst m)"

fun map_put :: "string \<Rightarrow> 'v \<Rightarrow> 'v gomap \<Rightarrow> 'v gomap" where
  \<comment> \<open>the assignment \<^verbatim>\<open>m[k] = v\<close>\<close>
  "map_put k v [] = [(k, v)]"
| "map_put k v ((k', v') # m) =
     (if k' = k then (k, v) # m else (k', v') # map_put k v m)"

definition map_index :: "string gomap \<Rightarrow> string \<Rightarrow> string" where
  \<comment> \<open>the expression \<^verbatim>\<open>m[k]\<close> on a \<^verbatim>\<open>map[string]string\<close>: the zero value \<^verbatim>\<open>""\<close> for a missing key\<close>
  "map_index m k = (case map_of m k of Some v \<Rightarrow> v | None \<Rightarrow> [])"

subsection \<open>Building the check string (steps 1 to 3 of VerifySignatureFromQuery)\<close>

fun collect_params :: "string list gomap \<Rightarrow> string gomap \<Rightarrow> string gomap" where
  \<comment> \<open>Step 1: the loop over \<^verbatim>\<open>queryParams\<close> that fills \<^verbatim>\<open>paramsMap\<close>\<close>
  "collect_params [] paramsMap = paramsMap"
| "collect_params ((key, vals) # rest) paramsMap =
     (if key = ''hash'' then collect_params rest paramsMap
      else if length vals > 0 then collect_params rest (map_put key (vals ! 0) paramsMap)
      else collect_params rest paramsMap)"

definition sorted_keys :: "string gomap \<Rightarrow> string list" where
  \<comment> \<open>Step 2: the keys of \<^verbatim>\<open>paramsMap\<close>, then \<^verbatim>\<open>sort.Strings(keys)\<close>\<close>
  "sorted_keys paramsMap = sort (map fst paramsMap)"

fun build_check_str :: "nat \<Rightarrow> string list \<Rightarrow> string gomap \<Rightarrow> string \<Rightarrow> string" where
  \<comment> \<open>Step 3: the loop \<^verbatim>\<open>for i, key := range keys\<close>, with the index and \<^verbatim>\<open>checkStr\<close> as arguments\<close>
  "build_check_str i [] paramsMap checkStr = checkStr"
| "build_check_str i (key # keys) paramsMap checkStr =
     build_check_str (i + 1) keys paramsMap
       ((if i > 0 then checkStr @ newline else checkStr) @ key @ ''='' @ map_index paramsMap key)"

definition check_string :: "string list gomap \<Rightarrow> string" where
  "check_string queryParams =
     (let paramsMap = collect_params queryParams [];
          keys = sorted_keys paramsMap
      in build_check_str 0 keys paramsMap [])"

subsection \<open>SHA-256, HMAC and hex encoding (Go standard library)\<close>

text \<open>
  \<^verbatim>\<open>crypto/sha256\<close>, \<^verbatim>\<open>crypto/hmac\<close>, \<^verbatim>\<open>crypto/subtle\<close> and \<^verbatim>\<open>encoding/hex\<close> belong
  to the Go standard library, not to the repository. They are modelled after the
  library's generic implementation, which follows FIPS 180-4 and RFC 2104.
\<close>

type_synonym u32 = "32 word"

definition K256 :: "u32 list" where
  "K256 =
    [0x428A2F98, 0x71374491, 0xB5C0FBCF, 0xE9B5DBA5, 0x3956C25B, 0x59F111F1, 0x923F82A4, 0xAB1C5ED5,
     0xD807AA98, 0x12835B01, 0x243185BE, 0x550C7DC3, 0x72BE5D74, 0x80DEB1FE, 0x9BDC06A7, 0xC19BF174,
     0xE49B69C1, 0xEFBE4786, 0x0FC19DC6, 0x240CA1CC, 0x2DE92C6F, 0x4A7484AA, 0x5CB0A9DC, 0x76F988DA,
     0x983E5152, 0xA831C66D, 0xB00327C8, 0xBF597FC7, 0xC6E00BF3, 0xD5A79147, 0x06CA6351, 0x14292967,
     0x27B70A85, 0x2E1B2138, 0x4D2C6DFC, 0x53380D13, 0x650A7354, 0x766A0ABB, 0x81C2C92E, 0x92722C85,
     0xA2BFE8A1, 0xA81A664B, 0xC24B8B70, 0xC76C51A3, 0xD192E819, 0xD6990624, 0xF40E3585, 0x106AA070,
     0x19A4C116, 0x1E376C08, 0x2748774C, 0x34B0BCB5, 0x391C0CB3, 0x4ED8AA4A, 0x5B9CCA4F, 0x682E6FF3,
     0x748F82EE, 0x78A5636F, 0x84C87814, 0x8CC70208, 0x90BEFFFA, 0xA4506CEB, 0xBEF9A3F7, 0xC67178F2]"

type_synonym digest = "u32 \<times> u32 \<times> u32 \<times> u32 \<times> u32 \<times> u32 \<times> u32 \<times> u32"

definition init256 :: digest where
  "init256 =
    (0x6A09E667, 0xBB67AE85, 0x3C6EF372, 0xA54FF53A, 0x510E527F, 0x9B05688C, 0x1F83D9AB, 0x5BE0CD19)"

definition be_u32 :: "byte list \<Rightarrow> u32" where
  \<comment> \<open>four bytes read as a big-endian word\<close>
  "be_u32 p =
     push_bit 24 (ucast (p ! 0)) OR push_bit 16 (ucast (p ! 1)) OR push_bit 8 (ucast (p ! 2))
       OR ucast (p ! 3)"

fun block_words :: "nat \<Rightarrow> byte list \<Rightarrow> u32 list" where
  \<comment> \<open>the first \<open>n\<close> big-endian words of a block\<close>
  "block_words 0 p = []"
| "block_words (Suc n) p = be_u32 (take 4 p) # block_words n (drop 4 p)"

fun extend_schedule :: "nat \<Rightarrow> u32 list \<Rightarrow> u32 list" where
  \<comment> \<open>\<open>w\<close> holds \<open>w[0..i-1]\<close>; each step appends \<open>w[i]\<close>\<close>
  "extend_schedule 0 w = w"
| "extend_schedule (Suc n) w =
     (let i = length w;
          v1 = w ! (i - 2);
          t1 = word_rotr 17 v1 XOR word_rotr 19 v1 XOR drop_bit 10 v1;
          v2 = w ! (i - 15);
          t2 = word_rotr 7 v2 XOR word_rotr 18 v2 XOR drop_bit 3 v2
      in extend_schedule n (w @ [t1 + w ! (i - 7) + t2 + w ! (i - 16)]))"

fun round256 :: "u32 \<times> u32 \<Rightarrow> digest \<Rightarrow> digest" where
  \<comment> \<open>one round, on the pair of the round constant and the schedule word\<close>
  "round256 (k, wi) (a, b, c, d, e, f, g, h) =
     (let t1 = h + (word_rotr 6 e XOR word_rotr 11 e XOR word_rotr 25 e)
                 + ((e AND f) XOR (NOT e AND g)) + k + wi;
          t2 = (word_rotr 2 a XOR word_rotr 13 a XOR word_rotr 22 a)
                 + ((a AND b) XOR (a AND c) XOR (b AND c))
      in (t1 + t2, a, b, c, d + t1, e, f, g))"

fun add_digest :: "digest \<Rightarrow> digest \<Rightarrow> digest" where
  "add_digest (h0, h1, h2, h3, h4, h5, h6, h7) (a, b, c, d, e, f, g, h) =
     (h0 + a, h1 + b, h2 + c, h3 + d, h4 + e, h5 + f, h6 + g, h7 + h)"

definition block256 :: "digest \<Rightarrow> byte list \<Rightarrow> digest" where
  \<comment> \<open>the compression of one 64-byte block\<close>
  "block256 dig p =
     (let w = extend_schedule 48 (block_words 16 p)
      in add_digest dig (fold round256 (zip K256 w) dig))"

fun blocks256 :: "nat \<Rightarrow> digest \<Rightarrow> byte list \<Rightarrow> digest" where
  \<comment> \<open>the loop \<^verbatim>\<open>for len(p) >= chunk\<close> over \<open>n\<close> blocks\<close>
  "blocks256 0 dig p = dig"
| "blocks256 (Suc n) dig p = blocks256 n (block256 dig (take 64 p)) (drop 64 p)"

definition be_bytes32 :: "u32 \<Rightarrow> byte list" where
  "be_bytes32 x = [ucast (drop_bit 24 x), ucast (drop_bit 16 x), ucast (drop_bit 8 x), ucast x]"

definition be_bytes64 :: "64 word \<Rightarrow> byte list" where
  "be_bytes64 x =
     [ucast (drop_bit 56 x), ucast (drop_bit 48 x), ucast (drop_bit 40 x), ucast (drop_bit 32 x),
      ucast (drop_bit 24 x), ucast (drop_bit 16 x), ucast (drop_bit 8 x), ucast x]"

definition padding256 :: "nat \<Rightarrow> byte list" where
  \<comment> \<open>the bytes \<^verbatim>\<open>checkSum\<close> appends: 0x80, zeros up to 56 modulo 64, the length in bits\<close>
  "padding256 len =
     (let t = (if len mod 64 < 56 then 56 - len mod 64 else 64 + 56 - len mod 64)
      in 0x80 # replicate (t - 1) 0 @ be_bytes64 (push_bit 3 (word_of_nat len)))"

fun digest_bytes :: "digest \<Rightarrow> byte list" where
  "digest_bytes (h0, h1, h2, h3, h4, h5, h6, h7) =
     be_bytes32 h0 @ be_bytes32 h1 @ be_bytes32 h2 @ be_bytes32 h3 @
     be_bytes32 h4 @ be_bytes32 h5 @ be_bytes32 h6 @ be_bytes32 h7"

definition sha256 :: "byte list \<Rightarrow> byte list" where
  \<comment> \<open>\<^verbatim>\<open>h := sha256.New(); h.Write(data); h.Sum(nil)\<close>\<close>
  "sha256 data =
     (let p = data @ padding256 (length data)
      in digest_bytes (blocks256 (length p div 64) init256 p))"

definition hmac_sha256 :: "byte list \<Rightarrow> byte list \<Rightarrow> byte list" where
  \<comment> \<open>\<^verbatim>\<open>h := hmac.New(sha256.New, key); h.Write(msg); h.Sum(nil)\<close>\<close>
  "hmac_sha256 key msg =
     (let key' = (if length key > 64 then sha256 key else key);
          padded = key' @ replicate (64 - length key') 0;
          ipad = map (\<lambda>b. b XOR 0x36) padded;
          opad = map (\<lambda>b. b XOR 0x5c) padded
      in sha256 (opad @ sha256 (ipad @ msg)))"

definition hextable :: string where
  "hextable = ''0123456789abcdef''"

fun EncodeToString :: "byte list \<Rightarrow> string" where
  \<comment> \<open>\<^verbatim>\<open>hex.EncodeToString\<close>: two characters of \<^verbatim>\<open>hextable\<close> for each byte\<close>
  "EncodeToString [] = []"
| "EncodeToString (v # src) =
     hextable ! unat (drop_bit 4 v) # hextable ! unat (v AND 0x0f) # EncodeToString src"

definition ConstantTimeByteEq :: "byte \<Rightarrow> byte \<Rightarrow> int" where
  \<comment> \<open>\<^verbatim>\<open>int((uint32(x^y) - 1) >> 31)\<close>\<close>
  "ConstantTimeByteEq x y = uint (drop_bit 31 ((ucast (x XOR y) :: u32) - 1))"

definition ConstantTimeCompare :: "byte list \<Rightarrow> byte list \<Rightarrow> int" where
  \<comment> \<open>\<^verbatim>\<open>subtle.ConstantTimeCompare\<close>: 0 for different lengths, else the OR of all XORs is tested\<close>
  "ConstantTimeCompare x y =
     (if length x \<noteq> length y then 0
      else ConstantTimeByteEq (fold (\<lambda>(a, b) v. v OR (a XOR b)) (zip x y) 0) 0)"

definition hmac_Equal :: "byte list \<Rightarrow> byte list \<Rightarrow> bool" where
  \<comment> \<open>\<^verbatim>\<open>hmac.Equal\<close>\<close>
  "hmac_Equal mac1 mac2 = (ConstantTimeCompare mac1 mac2 = 1)"

subsection \<open>VerifySignatureFromQuery\<close>

definition expected_hash :: "string list gomap \<Rightarrow> string \<Rightarrow> string" where
  \<comment> \<open>Steps 4 and 5: the value of \<^verbatim>\<open>expectedHash\<close>\<close>
  "expected_hash queryParams secret =
     (let checkStr = check_string queryParams;
          secretKey = sha256 (bytes_of secret)
      in EncodeToString (hmac_sha256 secretKey (bytes_of checkStr)))"

definition provided_hash :: "string list gomap \<Rightarrow> string" where
  \<comment> \<open>Step 6: the value of \<^verbatim>\<open>providedHash\<close>\<close>
  "provided_hash queryParams =
     (case map_of queryParams ''hash'' of
        None \<Rightarrow> []
      | Some hashValues \<Rightarrow> (if length hashValues > 0 then hashValues ! 0 else []))"

definition VerifySignatureFromQuery :: "string list gomap \<Rightarrow> string \<Rightarrow> bool" where
  "VerifySignatureFromQuery queryParams secret =
     (let expectedHash = expected_hash queryParams secret;
          providedHash = provided_hash queryParams
      in hmac_Equal (bytes_of expectedHash) (bytes_of providedHash))"

subsection \<open>ValidateTimestamp\<close>

text \<open>
  \<^verbatim>\<open>strconv.ParseInt(tsStr, 10, 64)\<close> is modelled after the standard library's source,
  specialised to base 10 and bit size 64. Both results of the Go function are kept: the
  number and the error (\<open>None\<close> for \<^verbatim>\<open>nil\<close>). \<^verbatim>\<open>int64\<close> and \<^verbatim>\<open>uint64\<close> are 64-bit
  words; \<open>sint\<close> reads an \<^verbatim>\<open>int64\<close>.
\<close>

datatype NumError = ErrSyntax | ErrRange

definition lower :: "byte \<Rightarrow> byte" where
  \<comment> \<open>\<^verbatim>\<open>c | ('x' - 'X')\<close>\<close>
  "lower c = c OR (0x78 - 0x58)"

definition digit_value :: "byte \<Rightarrow> byte option" where
  \<comment> \<open>the \<^verbatim>\<open>switch\<close> of \<^verbatim>\<open>ParseUint\<close> that computes \<^verbatim>\<open>d\<close>; \<open>None\<close> is its default case\<close>
  "digit_value c =
     (if 0x30 \<le> c \<and> c \<le> 0x39 then Some (c - 0x30)
      else if 0x61 \<le> lower c \<and> lower c \<le> 0x7a then Some (lower c - 0x61 + 10)
      else None)"

definition cutoff10 :: "64 word" where
  \<comment> \<open>\<^verbatim>\<open>maxUint64/10 + 1\<close>\<close>
  "cutoff10 = (- 1) div 10 + 1"

definition maxVal :: "64 word" where
  \<comment> \<open>\<^verbatim>\<open>uint64(1)<<uint(bitSize) - 1\<close> with \<^verbatim>\<open>bitSize\<close> 64\<close>
  "maxVal = push_bit 64 1 - 1"

fun ParseUint_loop :: "byte list \<Rightarrow> 64 word \<Rightarrow> 64 word \<times> NumError option" where
  \<comment> \<open>the loop \<^verbatim>\<open>for _, c := range []byte(s)\<close> with the accumulator \<^verbatim>\<open>n\<close>\<close>
  "ParseUint_loop [] n = (n, None)"
| "ParseUint_loop (c # s) n =
     (case digit_value c of
        None \<Rightarrow> (0, Some ErrSyntax)
      | Some d \<Rightarrow>
          if d \<ge> 10 then (0, Some ErrSyntax)
          else if n \<ge> cutoff10 then (maxVal, Some ErrRange)
          else if n * 10 + ucast d < n * 10 \<or> n * 10 + ucast d > maxVal
            then (maxVal, Some ErrRange)
          else ParseUint_loop s (n * 10 + ucast d))"

definition ParseUint :: "string \<Rightarrow> 64 word \<times> NumError option" where
  "ParseUint s = (if s = [] then (0, Some ErrSyntax) else ParseUint_loop (bytes_of s) 0)"

definition ParseInt :: "string \<Rightarrow> 64 word \<times> NumError option" where
  "ParseInt s =
     (if s = [] then (0, Some ErrSyntax)
      else
        let neg = (s ! 0 \<noteq> CHR ''+'' \<and> s ! 0 = CHR ''-'');
            s' = (if s ! 0 = CHR ''+'' \<or> s ! 0 = CHR ''-'' then drop 1 s else s);
            (un, err) = ParseUint s';
            cutoff = (push_bit 63 1 :: 64 word)
        in if err \<noteq> None \<and> err \<noteq> Some ErrRange then (0, err)
           else if \<not> neg \<and> un \<ge> cutoff then (cutoff - 1, Some ErrRange)
           else if neg \<and> un > cutoff then (- cutoff, Some ErrRange)
           else (if neg then - un else un, None))"

text \<open>
  The part of \<^verbatim>\<open>ParseInt\<close> after the call of \<^verbatim>\<open>ParseUint\<close>, as a function of the sign and
  of the pair \<^verbatim>\<open>ParseUint\<close> returned; the proofs use it to split \<open>ParseInt\<close>
  (lemma \<open>ParseInt_unfold\<close>).
\<close>

definition ParseInt_tail :: "bool \<Rightarrow> 64 word \<times> NumError option \<Rightarrow> 64 word \<times> NumError option" where
  "ParseInt_tail neg r =
     (let (un, err) = r; cutoff = (push_bit 63 1 :: 64 word)
      in if err \<noteq> None \<and> err \<noteq> Some ErrRange then (0, err)
         else if \<not> neg \<and> un \<ge> cutoff then (cutoff - 1, Some ErrRange)
         else if neg \<and> un > cutoff then (- cutoff, Some ErrRange)
         else (if neg then - un else un, None))"

definition SIGNATURE_MAX_AGE :: "64 word" where
  "SIGNATURE_MAX_AGE = 300"

definition ValidateTimestamp :: "64 word \<Rightarrow> string \<Rightarrow> bool" where
  \<comment> \<open>the first argument is the value of \<^verbatim>\<open>time.Now().Unix()\<close>\<close>
  "ValidateTimestamp now tsStr =
     (case ParseInt tsStr of
        (ts, Some err) \<Rightarrow> False
      | (ts, None) \<Rightarrow>
          let age = now - ts
          in if age <s - 60 then False
             else if SIGNATURE_MAX_AGE <s age then False
             else True)"

subsection \<open>The specification's notions\<close>

text \<open>
  The definitions of this subsection follow the words of the specification; the theorems
  compare them with the functions above.
\<close>

definition retained_names :: "string list gomap \<Rightarrow> string list" where
  \<comment> \<open>the names that are not the signature field and carry at least one value\<close>
  "retained_names q = map fst (filter (\<lambda>(k, vs). k \<noteq> ''hash'' \<and> vs \<noteq> []) q)"

definition first_value :: "string list gomap \<Rightarrow> string \<Rightarrow> string" where
  "first_value q k = (case map_of q k of Some (v # vs) \<Rightarrow> v | _ \<Rightarrow> [])"

definition join :: "string \<Rightarrow> string list \<Rightarrow> string" where
  \<comment> \<open>the elements separated by \<open>sep\<close>, with no leading or trailing separator\<close>
  "join sep xs = (case xs of [] \<Rightarrow> [] | x # ys \<Rightarrow> x @ concat (map (\<lambda>y. sep @ y) ys))"

definition canonical_spec :: "string list gomap \<Rightarrow> string" where
  "canonical_spec q =
     join newline (map (\<lambda>k. k @ ''='' @ first_value q k) (sort (retained_names q)))"

definition canonicalize :: "string gomap \<Rightarrow> string" where
  \<comment> \<open>the canonical string of a parameter set with one value per name\<close>
  "canonicalize P = join newline (map (\<lambda>k. k @ ''='' @ map_index P k) (sort (map fst P)))"

definition sign :: "string \<Rightarrow> string gomap \<Rightarrow> string" where
  \<comment> \<open>the expected signature: lowercase hex of HMAC-SHA-256 keyed with the SHA-256 of the secret\<close>
  "sign S P = EncodeToString (hmac_sha256 (sha256 (bytes_of S)) (bytes_of (canonicalize P)))"

definition wrap64 :: "int \<Rightarrow> int" where
  \<comment> \<open>the \<^verbatim>\<open>int64\<close> that holds the integer \<open>k\<close> after wrap-around\<close>
  "wrap64 k = (k + 2 ^ 63) mod 2 ^ 64 - 2 ^ 63"

definition is_digit :: "char \<Rightarrow> bool" where
  "is_digit c = (CHR ''0'' \<le> c \<and> c \<le> CHR ''9'')"

definition decimal_from :: "nat \<Rightarrow> string \<Rightarrow> nat" where
  \<comment> \<open>the number that the digits denote in base 10, continuing from \<open>a\<close>\<close>
  "decimal_from a ds = foldl (\<lambda>n c. 10 * n + (of_char c - 48)) a ds"

definition int64_of_text :: "string \<Rightarrow> int option" where
  \<comment> \<open>a base-10 signed 64-bit integer: an optional sign, at least one digit, a value in range\<close>
  "int64_of_text s =
     (let neg = (s \<noteq> [] \<and> hd s = CHR ''-'');
          ds = (if s \<noteq> [] \<and> (hd s = CHR ''+'' \<or> hd s = CHR ''-'') then tl s else s);
          v = (if neg then - int (decimal_from 0 ds) else int (decimal_from 0 ds))
      in if ds \<noteq> [] \<and> list_all is_digit ds \<and> - (2 ^ 63) \<le> v \<and> v < 2 ^ 63
         then Some v else None)"

section \<open>Properties of the check string\<close>

lemma map_of_map_put: "map_of (map_put k v m) = (map_of m)(k \<mapsto> v)"
  by (induction m) (auto simp: fun_eq_iff)

lemma keys_map_put: "fst ` set (map_put k v m) = insert k (fst ` set m)"
proof -
  have "dom (map_of (map_put k v m)) = insert k (dom (map_of m))"
    by (simp add: map_of_map_put)
  then show ?thesis
    by (simp only: dom_map_of_conv_image_fst)
qed

lemma wf_map_put: "wf_map m \<Longrightarrow> wf_map (map_put k v m)"
  unfolding wf_map_def
proof (induction m)
  case Nil
  then show ?case by simp
next
  case (Cons e m)
  obtain k' v' where e: "e = (k', v')" by (cases e)
  from Cons have "distinct (map fst (map_put k v m))" by simp
  moreover have "k' \<noteq> k \<Longrightarrow> k' \<notin> set (map fst (map_put k v m))"
    using Cons.prems e by (simp add: keys_map_put)
  ultimately show ?case using Cons.prems e by auto
qed

lemma wf_collect_params: "wf_map pm \<Longrightarrow> wf_map (collect_params q pm)"
  by (induction q pm rule: collect_params.induct) (auto simp: wf_map_put)

lemma keys_collect_params:
  "fst ` set (collect_params q pm) = fst ` set pm \<union> set (retained_names q)"
  by (induction q pm rule: collect_params.induct) (auto simp: keys_map_put retained_names_def)

lemma map_of_collect_params:
  "wf_map q \<Longrightarrow>
   map_of (collect_params q pm) k =
     (if k \<in> set (retained_names q) then Some (first_value q k) else map_of pm k)"
proof (induction q pm rule: collect_params.induct)
  case (1 pm)
  then show ?case by (simp add: retained_names_def)
next
  case (2 key vals rest pm)
  have wf: "wf_map rest" and fresh: "key \<notin> fst ` set rest"
    using "2.prems" by (auto simp: wf_map_def)
  have notin: "key \<notin> set (retained_names rest)"
    using fresh by (auto simp: retained_names_def)
  have fv: "k \<in> set (retained_names rest) \<Longrightarrow>
      first_value ((key, vals) # rest) k = first_value rest k"
    using notin by (auto simp: first_value_def)
  show ?case
  proof (cases "key = ''hash''")
    case True
    then show ?thesis using "2.IH"(1) [OF True wf] fv
      by (auto simp: retained_names_def first_value_def)
  next
    case False
    show ?thesis
    proof (cases vals)
      case Nil
      then show ?thesis using False "2.IH"(3) [OF False _ wf] fv notin
        by (auto simp: retained_names_def)
    next
      case (Cons v vs)
      then show ?thesis using False "2.IH"(2) [OF False _ wf] fv notin
        by (auto simp: retained_names_def first_value_def map_of_map_put)
    qed
  qed
qed

lemma distinct_retained_names: "wf_map q \<Longrightarrow> distinct (retained_names q)"
  by (simp add: wf_map_def retained_names_def distinct_map_filter)

lemma sort_cong_set:
  fixes xs ys :: "string list"
  assumes "distinct xs" "distinct ys" "set xs = set ys"
  shows "sort xs = sort ys"
proof -
  have "mset xs = mset ys"
    using assms by (simp add: set_eq_iff_mset_eq_distinct)
  then show ?thesis
    by (simp add: properties_for_sort)
qed

text \<open>
  The keys of \<^verbatim>\<open>paramsMap\<close> are distinct, so the sorted list does not depend on the order
  in which the second \<^verbatim>\<open>range\<close> loop visits them, nor on the sorting algorithm: every
  sorted list with the same elements is the result of \<open>sort\<close>.
\<close>

lemma sorted_keys_any_order:
  "mset (map fst pm') = mset (map fst pm) \<Longrightarrow> sorted_keys pm' = sorted_keys pm"
  by (simp add: sorted_keys_def properties_for_sort)

lemma sort_Strings_unique:
  fixes keys :: "string list"
  shows "mset keys' = mset keys \<Longrightarrow> sorted keys' \<Longrightarrow> keys' = sort keys"
  by (simp add: properties_for_sort)

lemma sorted_keys_collect:
  assumes "wf_map q"
  shows "sorted_keys (collect_params q []) = sort (retained_names q)"
proof -
  have "distinct (map fst (collect_params q []))"
    using wf_collect_params [of "[]" q] by (simp add: wf_map_def)
  moreover have "set (map fst (collect_params q [])) = set (retained_names q)"
    by (simp add: keys_collect_params)
  ultimately show ?thesis
    unfolding sorted_keys_def
    by (intro sort_cong_set distinct_retained_names assms)
qed

lemma build_check_str_pos:
  "i > 0 \<Longrightarrow>
   build_check_str i keys pm acc =
     acc @ concat (map (\<lambda>k. newline @ k @ ''='' @ map_index pm k) keys)"
  by (induction keys arbitrary: i acc) simp_all

lemma build_check_str_join:
  "build_check_str 0 keys pm [] = join newline (map (\<lambda>k. k @ ''='' @ map_index pm k) keys)"
  by (cases keys) (simp_all add: join_def build_check_str_pos comp_def)

lemma map_index_collect:
  "wf_map q \<Longrightarrow> k \<in> set (retained_names q) \<Longrightarrow>
   map_index (collect_params q []) k = first_value q k"
  by (simp add: map_index_def map_of_collect_params)

lemma check_string_canonical:
  assumes "wf_map q"
  shows "check_string q = canonical_spec q"
proof -
  have "map (\<lambda>k. k @ ''='' @ map_index (collect_params q []) k) (sort (retained_names q)) =
        map (\<lambda>k. k @ ''='' @ first_value q k) (sort (retained_names q))"
    by (rule map_cong) (simp_all add: map_index_collect assms)
  then show ?thesis
    by (simp only: check_string_def canonical_spec_def Let_def build_check_str_join
        sorted_keys_collect [OF assms])
qed

section \<open>Properties of the hash comparison\<close>

lemma length_digest_bytes: "length (digest_bytes dig) = 32"
  by (cases dig) (auto simp: be_bytes32_def)

lemma length_sha256: "length (sha256 d) = 32"
  by (simp only: sha256_def Let_def length_digest_bytes)

lemma length_hmac_sha256: "length (hmac_sha256 key msg) = 32"
  by (simp only: hmac_sha256_def Let_def length_sha256)

lemma length_EncodeToString: "length (EncodeToString src) = 2 * length src"
  by (induction src) simp_all

lemma unat_of_char_byte: "unat (of_char c :: byte) = of_char c"
proof -
  have "unat (of_char c :: byte) = unat (of_nat (of_char c) :: byte)"
    by (simp only: of_nat_of_char)
  also have "\<dots> = of_char c mod 256"
    by (simp add: unat_of_nat)
  finally show ?thesis by simp
qed

lemma of_char_byte_inj: "(of_char c :: byte) = of_char d \<longleftrightarrow> c = d"
proof
  assume "(of_char c :: byte) = of_char d"
  then have "unat (of_char c :: byte) = unat (of_char d :: byte)"
    by simp
  then have "(of_char c :: nat) = of_char d"
    by (simp only: unat_of_char_byte)
  then show "c = d" by simp
qed simp

lemma bytes_of_inj: "bytes_of a = bytes_of b \<longleftrightarrow> a = b"
  unfolding bytes_of_def
proof (induction a arbitrary: b)
  case Nil
  then show ?case by auto
next
  case (Cons c a)
  then show ?case by (cases b) (simp_all add: of_char_byte_inj)
qed

lemma unat_byte_less: "unat (v::byte) < 256"
  using unsigned_less [of v, where ?'a = nat] by simp

lemma unat_ucast_byte: "unat (ucast (v::byte) :: u32) = unat v"
  using unat_byte_less [of v] by (simp add: unsigned_ucast_eq take_bit_nat_eq_self)

lemma drop_bit_31_small:
  assumes "unat (w :: u32) < 2 ^ 31"
  shows "drop_bit 31 w = 0"
proof -
  from assms have "unat (drop_bit 31 w) = 0"
    unfolding unat_drop_bit_eq by (simp add: drop_bit_eq_div)
  then show ?thesis
    by (simp only: unsigned_eq_0_iff)
qed

lemma ConstantTimeByteEq_zero: "ConstantTimeByteEq v 0 = (if v = 0 then 1 else 0)"
proof (cases "v = 0")
  case True
  have "(ucast (0 :: byte) :: u32) - 1 = 0xFFFFFFFF" by simp
  then have "uint (drop_bit 31 ((ucast (0 :: byte) :: u32) - 1)) = 1"
    by (simp add: drop_bit_eq_div)
  then show ?thesis using True
    by (simp only: ConstantTimeByteEq_def xor.right_neutral if_True simp_thms)
next
  case False
  let ?w = "ucast v :: u32"
  have nz: "?w \<noteq> 0"
    using False unat_ucast_byte [of v] by (metis unsigned_eq_0_iff)
  have "unat (?w - 1) < 2 ^ 31"
    using unat_byte_less [of v] by (simp add: unat_minus_one [OF nz] unat_ucast_byte)
  then have "drop_bit 31 (?w - 1) = 0"
    by (rule drop_bit_31_small)
  moreover have "ConstantTimeByteEq v 0 = uint (drop_bit 31 (?w - 1))"
    unfolding ConstantTimeByteEq_def by (simp only: xor.right_neutral)
  ultimately have "ConstantTimeByteEq v 0 = 0"
    by (simp only: uint_0_eq)
  then show ?thesis using False by simp
qed

lemma xor_eq_0_byte: "(a::byte) XOR b = 0 \<longleftrightarrow> a = b"
proof
  assume h: "a XOR b = 0"
  have "b = a XOR (a XOR b)"
    by (simp add: xor.assoc [symmetric])
  also have "\<dots> = a"
    by (simp only: h xor.right_neutral)
  finally show "a = b" by simp
qed simp

lemma fold_or_xor_zero:
  "length x = length y \<Longrightarrow>
   fold (\<lambda>(a, b) v. v OR (a XOR b)) (zip x y) (acc :: byte) = 0 \<longleftrightarrow> acc = 0 \<and> x = y"
proof (induction x y arbitrary: acc rule: list_induct2)
  case Nil
  then show ?case by simp
next
  case (Cons a x b y)
  have "acc OR (a XOR b) = 0 \<longleftrightarrow> acc = 0 \<and> a = b"
    by (simp only: or_eq_0_iff xor_eq_0_byte)
  with Cons.IH [of "acc OR (a XOR b)"] show ?case
    by (simp del: or_eq_0_iff)
qed

lemma ConstantTimeCompare_eq: "ConstantTimeCompare x y = (if x = y then 1 else 0)"
proof (cases "length x = length y")
  case True
  then show ?thesis
    by (simp only: ConstantTimeCompare_def ConstantTimeByteEq_zero fold_or_xor_zero [OF True])
      simp
next
  case False
  then have "x \<noteq> y" by auto
  with False show ?thesis
    by (simp only: ConstantTimeCompare_def if_True if_False not_False_eq_True)
qed

lemma hmac_Equal_iff: "hmac_Equal (bytes_of a) (bytes_of b) \<longleftrightarrow> a = b"
  by (simp add: hmac_Equal_def ConstantTimeCompare_eq bytes_of_inj)

section \<open>Properties of the timestamp parser\<close>

lemma is_digit_nat: "is_digit c \<longleftrightarrow> 48 \<le> (of_char c :: nat) \<and> (of_char c :: nat) \<le> 57"
  by (simp add: is_digit_def less_eq_char_def)

lemma is_digit_byte: "is_digit c \<longleftrightarrow> 0x30 \<le> (of_char c :: byte) \<and> (of_char c :: byte) \<le> 0x39"
  by (simp add: is_digit_nat word_le_nat_alt unat_of_char_byte)

lemma cutoff10_val: "cutoff10 = 1844674407370955162"
  unfolding cutoff10_def by code_simp

lemma maxVal_val: "maxVal = - 1"
  unfolding maxVal_def by simp

lemma digit_value_digit:
  assumes "is_digit c"
  shows "digit_value (of_char c) = Some (of_char c - 0x30)"
    and "unat ((of_char c :: byte) - 0x30) = of_char c - 48"
    and "\<not> (of_char c :: byte) - 0x30 \<ge> 10"
proof -
  let ?b = "of_char c :: byte"
  have le: "0x30 \<le> ?b" "?b \<le> 0x39"
    using assms by (simp_all add: is_digit_byte)
  show "digit_value ?b = Some (?b - 0x30)"
    using le by (simp add: digit_value_def)
  show u: "unat (?b - 0x30) = of_char c - 48"
    using le(1) by (simp add: unat_sub unat_of_char_byte)
  have "(of_char c :: nat) \<le> 57"
    using assms by (simp add: is_digit_nat)
  then show "\<not> ?b - 0x30 \<ge> 10"
    using u by (simp add: word_le_nat_alt)
qed

lemma letter_value_ge_10:
  fixes l :: byte
  assumes "0x61 \<le> l" "l \<le> 0x7a"
  shows "l - 0x61 + 10 \<ge> 10"
proof -
  have a: "97 \<le> unat l" "unat l \<le> 122"
    using assms by (simp_all add: word_le_nat_alt)
  have "87 \<le> l"
    using a by (simp add: word_le_nat_alt)
  then have "unat (l - 87) = unat l - 87"
    by (simp add: unat_sub)
  moreover have "l - 0x61 + 10 = l - 87"
    by simp
  ultimately show ?thesis
    using a by (simp add: word_le_nat_alt)
qed

lemma digit_value_other:
  assumes "\<not> is_digit c"
  shows "digit_value (of_char c) = None \<or> (\<exists>d. digit_value (of_char c) = Some d \<and> d \<ge> 10)"
  using assms letter_value_ge_10 [of "lower (of_char c)"]
  by (auto simp: digit_value_def is_digit_byte)

lemma decimal_from_Cons:
  "decimal_from a (c # ds) = decimal_from (10 * a + (of_char c - 48)) ds"
  by (simp add: decimal_from_def)

lemma decimal_from_ge: "a \<le> decimal_from a ds"
proof (induction ds arbitrary: a)
  case Nil
  then show ?case by (simp add: decimal_from_def)
next
  case (Cons c ds)
  have "a \<le> 10 * a + (of_char c - 48)" by simp
  also have "\<dots> \<le> decimal_from (10 * a + (of_char c - 48)) ds"
    by (rule Cons.IH)
  finally show ?case by (simp only: decimal_from_Cons)
qed


lemma unat_ucast_byte64: "unat (ucast (d :: byte) :: 64 word) = unat d"
proof -
  have "unat d < 256"
    using unsigned_less [of d, where ?'a = nat] by simp
  then show ?thesis
    by (simp add: unsigned_ucast_eq take_bit_nat_eq_self)
qed

lemma not_greater_maxVal: "\<not> (x :: 64 word) > maxVal"
  unfolding maxVal_val by (rule word_order.extremum_strict)

lemma ParseUint_loop_digits:
  assumes "list_all is_digit ds"
  shows "ParseUint_loop (bytes_of ds) n =
     (if decimal_from (unat n) ds < 2 ^ 64 then (of_nat (decimal_from (unat n) ds), None)
      else (maxVal, Some ErrRange))"
  using assms
proof (induction ds arbitrary: n)
  case Nil
  have "unat n < 2 ^ 64"
    using unsigned_less [of n, where ?'a = nat] by simp
  then show ?case
    by (simp add: bytes_of_def decimal_from_def)
next
  case (Cons c ds)
  have dig: "is_digit c" and rest: "list_all is_digit ds"
    using Cons.prems by simp_all
  define d :: byte where "d = of_char c - 0x30"
  define dv :: nat where "dv = of_char c - 48"
  define n1 :: "64 word" where "n1 = n * 10 + ucast d"
  have dval: "digit_value (of_char c) = Some d" and ud: "unat d = dv" and dlt: "\<not> d \<ge> 10"
    using digit_value_digit [OF dig] by (simp_all add: d_def dv_def)
  have dv10: "dv < 10"
    using dlt ud by (simp add: word_le_nat_alt)
  have step: "ParseUint_loop (bytes_of (c # ds)) n =
      (if n \<ge> cutoff10 then (maxVal, Some ErrRange)
       else if n1 < n * 10 then (maxVal, Some ErrRange)
       else ParseUint_loop (bytes_of ds) n1)"
    using dval dlt by (simp add: bytes_of_def n1_def not_greater_maxVal)
  have dec: "decimal_from (unat n) (c # ds) = decimal_from (10 * unat n + dv) ds"
    by (simp only: decimal_from_Cons dv_def)
  have mono: "10 * unat n + dv \<le> decimal_from (unat n) (c # ds)"
    by (simp only: dec decimal_from_ge)
  show ?case
  proof (cases "n \<ge> cutoff10")
    case True
    then have "unat n \<ge> 1844674407370955162"
      by (simp add: cutoff10_val word_le_nat_alt)
    with mono have "\<not> decimal_from (unat n) (c # ds) < 2 ^ 64"
      by simp
    then show ?thesis
      using True step by simp
  next
    case False
    then have small: "unat n < 1844674407370955162"
      by (simp add: cutoff10_val word_le_nat_alt)
    have m: "unat (n * 10) = unat n * 10"
      using small by (simp add: unat_word_ariths)
    have "unat n1 = (unat (n * 10) + unat (ucast d :: 64 word)) mod 2 ^ LENGTH(64)"
      unfolding n1_def by (rule unat_word_ariths(1))
    then have u1: "unat n1 = (unat n * 10 + dv) mod 2 ^ 64"
      by (simp only: m unat_ucast_byte64 ud) simp
    show ?thesis
    proof (cases "unat n * 10 + dv < 2 ^ 64")
      case True
      then have eq: "unat n1 = 10 * unat n + dv"
        using u1 by simp
      then have "\<not> n1 < n * 10"
        using m by (simp add: word_less_nat_alt)
      then have "ParseUint_loop (bytes_of (c # ds)) n = ParseUint_loop (bytes_of ds) n1"
        using step False by simp
      then show ?thesis
        using Cons.IH [OF rest, of n1] by (simp only: dec eq)
    next
      case over: False
      have "unat n * 10 + dv < 2 * 2 ^ 64"
        using small dv10 by simp
      with over have "unat n1 = unat n * 10 + dv - 2 ^ 64"
        using u1 by (simp add: mod_if)
      then have "n1 < n * 10"
        using m dv10 over by (simp add: word_less_nat_alt)
      moreover have "\<not> decimal_from (unat n) (c # ds) < 2 ^ 64"
        using mono over by simp
      ultimately show ?thesis
        using step False by simp
    qed
  qed
qed

lemma ParseUint_loop_range: "snd (ParseUint_loop bs n) = Some ErrRange \<Longrightarrow> fst (ParseUint_loop bs n) = maxVal"
  by (induction bs n rule: ParseUint_loop.induct) (auto split: option.splits if_splits)

lemma ParseUint_loop_nondigit:
  "\<not> list_all is_digit ds \<Longrightarrow> snd (ParseUint_loop (bytes_of ds) n) \<noteq> None"
proof (induction ds arbitrary: n)
  case Nil
  then show ?case by simp
next
  case (Cons c ds)
  show ?case
  proof (cases "is_digit c")
    case True
    then have rest: "\<not> list_all is_digit ds"
      using Cons.prems by simp
    have "digit_value (of_char c) = Some (of_char c - 0x30)" "\<not> (of_char c :: byte) - 0x30 \<ge> 10"
      using digit_value_digit [OF True] by simp_all
    then show ?thesis
      using Cons.IH [OF rest] by (simp add: bytes_of_def)
  next
    case False
    then show ?thesis
      using digit_value_other [OF False] by (auto simp: bytes_of_def)
  qed
qed

lemma wrap64_id: "- (2 ^ 63) \<le> k \<Longrightarrow> k < 2 ^ 63 \<Longrightarrow> wrap64 k = k"
  by (simp add: wrap64_def)

lemma wrap64_high:
  assumes "2 ^ 63 \<le> k" "k < 2 ^ 64 + 2 ^ 63"
  shows "wrap64 k = k - 2 ^ 64"
proof -
  have "(k - 2 ^ 64 + 2 ^ 63 + 2 ^ 64) mod 2 ^ 64 = (k - 2 ^ 64 + 2 ^ 63) mod 2 ^ 64"
    by (rule mod_add_self2)
  moreover have "k - 2 ^ 64 + 2 ^ 63 + 2 ^ 64 = k + 2 ^ 63"
    by simp
  ultimately have "wrap64 k = wrap64 (k - 2 ^ 64)"
    by (simp only: wrap64_def)
  also have "\<dots> = k - 2 ^ 64"
    using assms by (intro wrap64_id) simp_all
  finally show ?thesis .
qed

lemma wrap64_low:
  assumes "- (2 ^ 64) - 2 ^ 63 \<le> k" "k < - (2 ^ 63)"
  shows "wrap64 k = k + 2 ^ 64"
proof -
  have "(k + 2 ^ 63 + 2 ^ 64) mod 2 ^ 64 = (k + 2 ^ 63) mod 2 ^ 64"
    by (rule mod_add_self2)
  moreover have "k + 2 ^ 63 + 2 ^ 64 = k + 2 ^ 64 + 2 ^ 63"
    by simp
  ultimately have "wrap64 k = wrap64 (k + 2 ^ 64)"
    by (simp only: wrap64_def)
  also have "\<dots> = k + 2 ^ 64"
    using assms by (intro wrap64_id) simp_all
  finally show ?thesis .
qed


lemma sint_wrap64: "sint (w :: 64 word) = wrap64 (uint w)"
proof -
  have "sint w = signed_take_bit 63 (uint w)"
    using sint_uint [of w] by simp
  then show ?thesis
    by (simp add: signed_take_bit_eq_take_bit_shift take_bit_eq_mod wrap64_def)
qed

lemma sint_diff_wrap64: "sint (a - b :: 64 word) = wrap64 (sint a - sint b)"
proof -
  have "sint (a - b) = signed_take_bit 63 (sint a - sint b)"
    using sint_word_diff [of a b] by simp
  then show ?thesis
    by (simp add: signed_take_bit_eq_take_bit_shift take_bit_eq_mod wrap64_def)
qed


lemma sint_small:
  assumes "uint (w :: 64 word) < 2 ^ 63"
  shows "sint w = uint w"
proof -
  have "- (2 ^ 63) \<le> uint w"
    by (rule order_trans [OF _ uint_ge_0]) simp
  then show ?thesis
    unfolding sint_wrap64 using assms by (rule wrap64_id)
qed

lemma sint_neg:
  assumes "uint (w :: 64 word) \<le> 2 ^ 63"
  shows "sint (- w) = - uint w"
proof -
  have neg: "uint (- w) = (- uint w) mod 2 ^ 64"
    using uint_word_ariths(4) [of w] by simp
  show ?thesis
  proof (cases "uint w = 0")
    case True
    then have "w = 0"
      by (simp only: uint_0_iff)
    then show ?thesis by simp
  next
    case False
    then have pos: "0 < uint w"
      using uint_ge_0 [of w] by linarith
    have "(- uint w + 2 ^ 64) mod 2 ^ 64 = (- uint w) mod 2 ^ 64"
      by (rule mod_add_self2)
    moreover have "(- uint w + 2 ^ 64) mod 2 ^ 64 = - uint w + 2 ^ 64"
      using pos assms by (intro mod_pos_pos_trivial) simp_all
    ultimately have m: "uint (- w) = - uint w + 2 ^ 64"
      by (simp only: neg)
    have "wrap64 (- uint w + 2 ^ 64) = - uint w + 2 ^ 64 - 2 ^ 64"
      using pos assms by (intro wrap64_high) simp_all
    then show ?thesis
      by (simp only: sint_wrap64 m)
  qed
qed


lemma cutoff63_val: "uint (push_bit 63 1 :: 64 word) = 2 ^ 63"
  by simp

lemma uint_maxVal: "uint maxVal = 2 ^ 64 - 1"
  by (simp add: maxVal_val unsigned_minus_1_eq_mask mask_eq_exp_minus_1)

lemma uint_of_nat64: "V < 2 ^ 64 \<Longrightarrow> uint (of_nat V :: 64 word) = int V"
  by (simp add: unsigned_of_nat take_bit_nat_eq_self)

lemma ParseInt_tail_error:
  assumes "snd r \<noteq> None" "snd r = Some ErrRange \<Longrightarrow> fst r = maxVal"
  shows "snd (ParseInt_tail neg r) \<noteq> None"
proof (cases r)
  case (Pair un err)
  show ?thesis
  proof (cases "err = Some ErrRange")
    case True
    then have "un = maxVal" using assms(2) Pair by simp
    then have "uint un = 2 ^ 64 - 1" by (simp only: uint_maxVal)
    then have "un \<ge> push_bit 63 1" "un > push_bit 63 1"
      by (simp_all only: word_le_def word_less_def cutoff63_val) simp_all
    then show ?thesis
      using Pair True by (simp add: ParseInt_tail_def)
  next
    case False
    then show ?thesis
      using Pair assms(1) by (simp add: ParseInt_tail_def)
  qed
qed

lemma ParseInt_tail_ok:
  assumes "V < 2 ^ 64"
  shows "ParseInt_tail False (of_nat V, None) =
           (if int V < 2 ^ 63 then (of_nat V, None) else (push_bit 63 1 - 1, Some ErrRange))"
    and "ParseInt_tail True (of_nat V, None) =
           (if int V \<le> 2 ^ 63 then (- of_nat V, None) else (- push_bit 63 1, Some ErrRange))"
proof -
  have u: "uint (of_nat V :: 64 word) = int V"
    using assms by (rule uint_of_nat64)
  have ge: "(of_nat V :: 64 word) \<ge> push_bit 63 1 \<longleftrightarrow> 2 ^ 63 \<le> int V"
    by (simp only: word_le_def cutoff63_val u)
  have gt: "(of_nat V :: 64 word) > push_bit 63 1 \<longleftrightarrow> 2 ^ 63 < int V"
    by (simp only: word_less_def cutoff63_val u)
  show "ParseInt_tail False (of_nat V, None) =
           (if int V < 2 ^ 63 then (of_nat V, None) else (push_bit 63 1 - 1, Some ErrRange))"
    unfolding ParseInt_tail_def Let_def prod.case using ge by (simp del: push_bit_of_1)
  show "ParseInt_tail True (of_nat V, None) =
           (if int V \<le> 2 ^ 63 then (- of_nat V, None) else (- push_bit 63 1, Some ErrRange))"
    unfolding ParseInt_tail_def Let_def prod.case using gt by (simp del: push_bit_of_1)
qed

lemma ParseInt_unfold:
  "ParseInt (c # r) =
     ParseInt_tail (c = CHR ''-'')
       (ParseUint (if c = CHR ''+'' \<or> c = CHR ''-'' then r else c # r))"
  by (auto simp: ParseInt_def ParseInt_tail_def Let_def split: prod.splits)


lemma ParseInt_spec:
  "case int64_of_text s of
     Some v \<Rightarrow> (\<exists>n. ParseInt s = (n, None) \<and> sint n = v)
   | None \<Rightarrow> snd (ParseInt s) \<noteq> None"
proof (cases s)
  case Nil
  then show ?thesis
    by (simp add: int64_of_text_def ParseInt_def)
next
  case (Cons c r)
  define neg where "neg = (c = CHR ''-'')"
  define ds where "ds = (if c = CHR ''+'' \<or> c = CHR ''-'' then r else c # r)"
  define V where "V = decimal_from 0 ds"
  define v where "v = (if neg then - int V else int V)"
  have spec: "int64_of_text s =
      (if ds \<noteq> [] \<and> list_all is_digit ds \<and> - (2 ^ 63) \<le> v \<and> v < 2 ^ 63 then Some v else None)"
    unfolding Cons int64_of_text_def Let_def neg_def ds_def V_def v_def by simp
  have code: "ParseInt s = ParseInt_tail neg (ParseUint ds)"
    unfolding Cons neg_def ds_def by (rule ParseInt_unfold)
  show ?thesis
  proof (cases "ds \<noteq> [] \<and> list_all is_digit ds \<and> V < 2 ^ 64")
    case False
    have err: "snd (ParseUint ds) \<noteq> None"
    proof (cases "ds = []")
      case True
      then show ?thesis by (simp add: ParseUint_def)
    next
      case nonempty: False
      show ?thesis
      proof (cases "list_all is_digit ds")
        case True
        then have "\<not> V < 2 ^ 64" using False nonempty by simp
        then show ?thesis
          using nonempty ParseUint_loop_digits [OF True, of 0]
          by (simp add: ParseUint_def V_def)
      next
        case False
        then show ?thesis
          using nonempty ParseUint_loop_nondigit [OF False, of 0]
          by (simp add: ParseUint_def)
      qed
    qed
    have rng: "snd (ParseUint ds) = Some ErrRange \<Longrightarrow> fst (ParseUint ds) = maxVal"
      using ParseUint_loop_range [of "bytes_of ds" 0]
      by (cases "ds = []") (simp_all add: ParseUint_def)
    have "snd (ParseInt s) \<noteq> None"
      unfolding code using err rng by (rule ParseInt_tail_error)
    moreover have "int64_of_text s = None"
    proof -
      have "\<not> (ds \<noteq> [] \<and> list_all is_digit ds \<and> - (2 ^ 63) \<le> v \<and> v < 2 ^ 63)"
        using False by (auto simp: v_def)
      then show ?thesis by (simp only: spec if_False)
    qed
    ultimately show ?thesis by simp
  next
    case True
    then have ne: "ds \<noteq> []" and dig: "list_all is_digit ds" and small: "V < 2 ^ 64"
      by simp_all
    have pu: "ParseUint ds = (of_nat V, None)"
      using ne small ParseUint_loop_digits [OF dig, of 0] by (simp add: ParseUint_def V_def)
    have u: "uint (of_nat V :: 64 word) = int V"
      using small by (rule uint_of_nat64)
    show ?thesis
    proof (cases neg)
      case pos: False
      have r: "ParseInt s =
          (if int V < 2 ^ 63 then (of_nat V, None) else (push_bit 63 1 - 1, Some ErrRange))"
        unfolding code pu using pos ParseInt_tail_ok(1) [OF small] by simp
      show ?thesis
      proof (cases "int V < 2 ^ 63")
        case True
        then have "sint (of_nat V :: 64 word) = int V"
          using sint_small [of "of_nat V"] by (simp only: u)
        moreover have "int64_of_text s = Some (int V)"
          using True pos ne dig by (simp add: spec v_def)
        ultimately show ?thesis
          using r True by simp
      next
        case False
        then have "int64_of_text s = None"
          using pos by (simp add: spec v_def)
        then show ?thesis
          using r False by simp
      qed
    next
      case isneg: True
      have r: "ParseInt s =
          (if int V \<le> 2 ^ 63 then (- of_nat V, None) else (- push_bit 63 1, Some ErrRange))"
        unfolding code pu using isneg ParseInt_tail_ok(2) [OF small] by simp
      show ?thesis
      proof (cases "int V \<le> 2 ^ 63")
        case True
        then have "sint (- of_nat V :: 64 word) = - int V"
          using sint_neg [of "of_nat V"] by (simp only: u)
        moreover have "int64_of_text s = Some (- int V)"
          using True isneg ne dig by (simp add: spec v_def)
        ultimately show ?thesis
          using r True by simp
      next
        case False
        then have "int64_of_text s = None"
          using isneg by (simp add: spec v_def)
        then show ?thesis
          using r False by simp
      qed
    qed
  qed
qed

section \<open>The claims about the check string\<close>

lemma set_retained_names:
  assumes "wf_map q"
  shows "set (retained_names q) = {k. k \<noteq> ''hash'' \<and> (\<exists>v vs. map_of q k = Some (v # vs))}"
proof -
  have d: "distinct (map fst q)"
    using assms by (simp add: wf_map_def)
  have "k \<in> set (retained_names q) \<longleftrightarrow> k \<noteq> ''hash'' \<and> (\<exists>v vs. map_of q k = Some (v # vs))" for k
  proof
    assume "k \<in> set (retained_names q)"
    then obtain vs where "(k, vs) \<in> set q" "k \<noteq> ''hash''" "vs \<noteq> []"
      by (auto simp: retained_names_def)
    then show "k \<noteq> ''hash'' \<and> (\<exists>v vs. map_of q k = Some (v # vs))"
      using d by (cases vs) auto
  next
    assume "k \<noteq> ''hash'' \<and> (\<exists>v vs. map_of q k = Some (v # vs))"
    then obtain v vs where "k \<noteq> ''hash''" "map_of q k = Some (v # vs)"
      by blast
    then have "(k, v # vs) \<in> set q" "k \<noteq> ''hash''"
      by (auto dest: map_of_SomeD)
    then show "k \<in> set (retained_names q)"
      by (force simp: retained_names_def)
  qed
  then show ?thesis by blast
qed

lemma first_value_retained:
  assumes "wf_map q" "k \<in> set (retained_names q)"
  shows "\<exists>vs. map_of q k = Some (first_value q k # vs)"
proof -
  from assms obtain v vs where "map_of q k = Some (v # vs)"
    by (auto simp: set_retained_names)
  then show ?thesis by (simp add: first_value_def)
qed

lemma strict_sorted_retained:
  "wf_map q \<Longrightarrow> sorted_wrt (<) (sort (retained_names q))"
  by (simp add: strict_sorted_iff distinct_retained_names)

lemma canonical_spec_cong:
  assumes "wf_map q1" "wf_map q2"
    and "\<forall>k. k \<noteq> ''hash'' \<longrightarrow> map_of q1 k = map_of q2 k"
  shows "canonical_spec q1 = canonical_spec q2"
proof -
  have "set (retained_names q1) = set (retained_names q2)"
    using assms by (auto simp: set_retained_names)
  then have s: "sort (retained_names q1) = sort (retained_names q2)"
    using assms(1,2) by (intro sort_cong_set distinct_retained_names)
  have "k \<in> set (retained_names q2) \<Longrightarrow> first_value q1 k = first_value q2 k" for k
    using assms by (auto simp: set_retained_names first_value_def)
  then have "map (\<lambda>k. k @ ''='' @ first_value q1 k) (sort (retained_names q2)) =
             map (\<lambda>k. k @ ''='' @ first_value q2 k) (sort (retained_names q2))"
    by (intro map_cong refl) simp
  then show ?thesis
    by (simp only: canonical_spec_def s)
qed

lemma join_split:
  "join sep (xs @ y # ys) =
     (if xs = [] then [] else join sep xs @ sep) @ y @ concat (map (\<lambda>z. sep @ z) ys)"
  by (cases xs) (simp_all add: join_def)

lemma canonical_spec_tamper:
  assumes wf: "wf_map q1" "wf_map q2"
    and k: "k \<noteq> ''hash''" "map_of q1 k = Some (v # vs)" "map_of q2 k = Some (v' # vs')"
    and ne: "v \<noteq> v'"
    and others: "\<forall>j. j \<noteq> k \<longrightarrow> map_of q2 j = map_of q1 j"
  shows "canonical_spec q1 \<noteq> canonical_spec q2"
proof
  assume eq: "canonical_spec q1 = canonical_spec q2"
  define ks where "ks = sort (retained_names q1)"
  have "set (retained_names q1) = set (retained_names q2)"
  proof -
    have "j \<in> set (retained_names q1) \<longleftrightarrow> j \<in> set (retained_names q2)" for j
      using k others by (cases "j = k") (simp_all add: set_retained_names wf)
    then show ?thesis by blast
  qed
  then have s: "sort (retained_names q2) = ks"
    unfolding ks_def using wf by (intro sort_cong_set distinct_retained_names) simp_all
  have "k \<in> set ks"
    using k by (simp add: ks_def set_retained_names wf)
  then obtain xs ys where split: "ks = xs @ k # ys"
    by (meson split_list)
  have "distinct ks"
    by (simp add: ks_def distinct_retained_names wf)
  then have notin: "k \<notin> set xs" "k \<notin> set ys"
    by (simp_all add: split)
  define f1 where "f1 = (\<lambda>j. j @ ''='' @ first_value q1 j)"
  define f2 where "f2 = (\<lambda>j. j @ ''='' @ first_value q2 j)"
  have same: "j \<noteq> k \<Longrightarrow> f1 j = f2 j" for j
    using others by (simp add: f1_def f2_def first_value_def)
  have mx: "map f1 xs = map f2 xs"
  proof (rule map_cong [OF refl])
    fix x assume "x \<in> set xs"
    then have "x \<noteq> k" using notin by auto
    then show "f1 x = f2 x" by (rule same)
  qed
  have my: "map f1 ys = map f2 ys"
  proof (rule map_cong [OF refl])
    fix x assume "x \<in> set ys"
    then have "x \<noteq> k" using notin by auto
    then show "f1 x = f2 x" by (rule same)
  qed
  have c1: "canonical_spec q1 = join newline (map f1 xs @ f1 k # map f1 ys)"
    by (simp add: canonical_spec_def ks_def [symmetric] split f1_def)
  have c2: "canonical_spec q2 = join newline (map f2 xs @ f2 k # map f2 ys)"
    by (simp add: canonical_spec_def s split f2_def)
  have "f1 k = f2 k"
    using eq unfolding c1 c2 join_split mx my by simp
  then show False
    using k ne by (simp add: f1_def f2_def first_value_def)
qed

lemma collect_params_filter:
  "collect_params (filter (\<lambda>e. fst e \<noteq> ''hash'') q) pm = collect_params q pm"
  by (induction q pm rule: collect_params.induct) simp_all

lemma filter_map_put_hash:
  "filter (\<lambda>e. fst e \<noteq> ''hash'') (map_put ''hash'' hv q) = filter (\<lambda>e. fst e \<noteq> ''hash'') q"
  by (induction q) auto

lemma check_string_filter:
  "check_string (filter (\<lambda>e. fst e \<noteq> ''hash'') q) = check_string q"
  by (simp add: check_string_def collect_params_filter)

lemma hash_not_collected: "''hash'' \<notin> fst ` set pm \<Longrightarrow> ''hash'' \<notin> fst ` set (collect_params q pm)"
  by (simp add: keys_collect_params retained_names_def) auto


lemma map_of_paramsMap:
  assumes "wf_map q"
  shows "map_of (collect_params q []) k =
     (if k = ''hash'' then None
      else case map_of q k of Some (v # vs) \<Rightarrow> Some v | _ \<Rightarrow> None)"
proof (cases "k \<in> set (retained_names q)")
  case True
  then obtain v vs where "k \<noteq> ''hash''" "map_of q k = Some (v # vs)"
    using assms by (auto simp: set_retained_names)
  then show ?thesis
    using True assms by (simp add: map_of_collect_params first_value_def)
next
  case False
  then have "k = ''hash'' \<or> map_of q k = None \<or> map_of q k = Some []"
    using assms by (simp add: set_retained_names) (metis list.exhaust option.exhaust)
  then show ?thesis
    using False assms by (auto simp: map_of_collect_params)
qed

text \<open>
  C1. For a query map with distinct keys, the check string that
  \<^verbatim>\<open>VerifySignatureFromQuery\<close> builds is the newline-joined list of the entries
  \<open>name=value\<close> (the value verbatim) over the retained names in strictly ascending
  byte-wise order; the retained names are the names other than \<open>hash\<close> that carry a
  value; without retained names the check string is empty.
\<close>

theorem check_string_is_canonical:
  assumes "wf_map q"
  shows "check_string q =
           join newline (map (\<lambda>k. k @ ''='' @ first_value q k) (sort (retained_names q)))
       \<and> sorted_wrt (<) (sort (retained_names q))
       \<and> set (sort (retained_names q)) =
             {k. k \<noteq> ''hash'' \<and> (\<exists>v vs. map_of q k = Some (v # vs))}
       \<and> (\<forall>k \<in> set (retained_names q). \<exists>vs. map_of q k = Some (first_value q k # vs))
       \<and> (retained_names q = [] \<longrightarrow> check_string q = [])"
proof -
  have c: "check_string q =
      join newline (map (\<lambda>k. k @ ''='' @ first_value q k) (sort (retained_names q)))"
    using check_string_canonical [OF assms] by (simp only: canonical_spec_def)
  moreover have "sorted_wrt (<) (sort (retained_names q))"
    using assms by (rule strict_sorted_retained)
  moreover have "set (sort (retained_names q)) =
      {k. k \<noteq> ''hash'' \<and> (\<exists>v vs. map_of q k = Some (v # vs))}"
    using set_retained_names [OF assms] by simp
  moreover have "\<forall>k \<in> set (retained_names q). \<exists>vs. map_of q k = Some (first_value q k # vs)"
    using first_value_retained [OF assms] by blast
  moreover have "retained_names q = [] \<longrightarrow> check_string q = []"
    by (simp add: c join_def)
  ultimately show ?thesis by blast
qed

theorem check_string_is_canonical_witness:
  "wf_map [(''user_id'', [''42'']), (''hash'', [''zz'']), (''ts'', [''1000000000'']),
           (''app_id'', [''7'', ''8'']), (''e'', [])]
   \<and> check_string [(''user_id'', [''42'']), (''hash'', [''zz'']), (''ts'', [''1000000000'']),
           (''app_id'', [''7'', ''8'']), (''e'', [])] =
       ''app_id=7'' @ newline @ ''ts=1000000000'' @ newline @ ''user_id=42''"
proof -
  let ?q = "[(''user_id'', [''42'']), (''hash'', [''zz'']), (''ts'', [''1000000000'']),
             (''app_id'', [''7'', ''8'']), (''e'', [])]"
  have wf: "wf_map ?q"
    by (simp add: wf_map_def)
  have "join newline (map (\<lambda>k. k @ ''='' @ first_value ?q k) (sort (retained_names ?q))) =
        ''app_id=7'' @ newline @ ''ts=1000000000'' @ newline @ ''user_id=42''"
    by code_simp
  then show ?thesis
    using wf check_string_is_canonical [OF wf] by simp
qed

text \<open>
  C6. No entry of the check string is made for the name \<open>hash\<close>: the sorted keys the
  entries are emitted for never contain it, and the check string is the one of the query
  map without its \<open>hash\<close> entry, whatever values that entry carries.
\<close>

theorem hash_excluded:
  "''hash'' \<notin> set (sorted_keys (collect_params q []))
   \<and> check_string (filter (\<lambda>e. fst e \<noteq> ''hash'') q) = check_string q
   \<and> check_string (map_put ''hash'' hv q) = check_string q"
proof -
  have "''hash'' \<notin> fst ` set (collect_params q [])"
    by (rule hash_not_collected) simp
  then have "''hash'' \<notin> set (sorted_keys (collect_params q []))"
    by (simp add: sorted_keys_def)
  moreover have "check_string (map_put ''hash'' hv q) = check_string q"
    using check_string_filter [of "map_put ''hash'' hv q"] check_string_filter [of q]
    by (simp only: filter_map_put_hash)
  ultimately show ?thesis
    by (simp only: check_string_filter simp_thms)
qed

text \<open>
  C7. Two query maps with distinct keys and the same contents, in whatever order their
  entries are visited, have the same check string; and two query maps that carry the same
  names, and differ in the first value of one retained name only, have different check
  strings.
\<close>

theorem check_string_deterministic_and_tamper_sensitive:
  assumes "wf_map q1" "wf_map q2"
  shows "(map_of q1 = map_of q2 \<longrightarrow> check_string q1 = check_string q2)
       \<and> (\<forall>k v vs v' vs'.
             k \<noteq> ''hash'' \<and> map_of q1 k = Some (v # vs) \<and> map_of q2 k = Some (v' # vs')
             \<and> v \<noteq> v' \<and> (\<forall>j. j \<noteq> k \<longrightarrow> map_of q2 j = map_of q1 j)
             \<longrightarrow> check_string q1 \<noteq> check_string q2)"
proof -
  have c: "check_string q1 = canonical_spec q1" "check_string q2 = canonical_spec q2"
    using assms by (simp_all add: check_string_canonical)
  have "map_of q1 = map_of q2 \<longrightarrow> canonical_spec q1 = canonical_spec q2"
    using canonical_spec_cong [OF assms] by simp
  moreover have "canonical_spec q1 \<noteq> canonical_spec q2"
    if "k \<noteq> ''hash''" "map_of q1 k = Some (v # vs)" "map_of q2 k = Some (v' # vs')"
       "v \<noteq> v'" "\<forall>j. j \<noteq> k \<longrightarrow> map_of q2 j = map_of q1 j" for k v vs v' vs'
    using canonical_spec_tamper [OF assms that] .
  ultimately show ?thesis
    unfolding c by blast
qed

theorem check_string_deterministic_and_tamper_sensitive_witness:
  "wf_map [(''b'', [''2'']), (''a'', [''1'', ''x''])] \<and> wf_map [(''a'', [''1'', ''x'']), (''b'', [''2''])]
   \<and> wf_map [(''a'', [''3'']), (''b'', [''2''])]
   \<and> check_string [(''b'', [''2'']), (''a'', [''1'', ''x''])] =
       check_string [(''a'', [''1'', ''x'']), (''b'', [''2''])]
   \<and> check_string [(''b'', [''2'']), (''a'', [''1'', ''x''])] \<noteq>
       check_string [(''a'', [''3'']), (''b'', [''2''])]"
proof -
  let ?q1 = "[(''b'', [''2'']), (''a'', [''1'', ''x''])]"
  let ?q2 = "[(''a'', [''1'', ''x'']), (''b'', [''2''])]"
  let ?q3 = "[(''a'', [''3'']), (''b'', [''2''])]"
  have wf: "wf_map ?q1" "wf_map ?q2" "wf_map ?q3"
    by (simp_all add: wf_map_def)
  have m: "map_of ?q1 = map_of ?q2"
    by (auto simp: fun_eq_iff)
  have "check_string ?q1 = check_string ?q2"
    using check_string_deterministic_and_tamper_sensitive [OF wf(1) wf(2)] m by blast
  moreover have "check_string ?q1 \<noteq> check_string ?q3"
  proof -
    have "''a'' \<noteq> ''hash'' \<and> map_of ?q1 ''a'' = Some (''1'' # [''x'']) \<and>
          map_of ?q3 ''a'' = Some (''3'' # []) \<and> ''1'' \<noteq> ''3'' \<and>
          (\<forall>j. j \<noteq> ''a'' \<longrightarrow> map_of ?q3 j = map_of ?q1 j)"
      by simp
    then show ?thesis
      using check_string_deterministic_and_tamper_sensitive [OF wf(1) wf(3)] by blast
  qed
  ultimately show ?thesis
    using wf by simp
qed

text \<open>
  C9. For a query map with distinct keys, the one-value-per-name map \<^verbatim>\<open>paramsMap\<close>
  holds, for every name other than \<open>hash\<close> with at least one value, exactly the first
  value of its list, and no entry for a name with an empty list; the check string has
  one entry \<open>name=value\<close> for each key of that map, with the value stored there.
\<close>

theorem first_value_used:
  assumes "wf_map q"
  shows "(\<forall>k. map_of (collect_params q []) k =
            (if k = ''hash'' then None
             else case map_of q k of Some (v # vs) \<Rightarrow> Some v | _ \<Rightarrow> None))
       \<and> distinct (sorted_keys (collect_params q []))
       \<and> set (sorted_keys (collect_params q [])) = dom (map_of (collect_params q []))
       \<and> check_string q =
           join newline (map (\<lambda>k. k @ ''='' @ map_index (collect_params q []) k)
             (sorted_keys (collect_params q [])))"
proof -
  have wf: "wf_map (collect_params q [])"
    by (rule wf_collect_params) (simp add: wf_map_def)
  then have "distinct (sorted_keys (collect_params q []))"
    by (simp add: sorted_keys_def wf_map_def)
  moreover have "set (sorted_keys (collect_params q [])) = dom (map_of (collect_params q []))"
    by (simp add: sorted_keys_def dom_map_of_conv_image_fst)
  moreover have "check_string q =
      join newline (map (\<lambda>k. k @ ''='' @ map_index (collect_params q []) k)
        (sorted_keys (collect_params q [])))"
    by (simp only: check_string_def Let_def build_check_str_join)
  ultimately show ?thesis
    using map_of_paramsMap [OF assms] by blast
qed

theorem first_value_used_witness:
  "wf_map [(''b'', []), (''hash'', [''h'']), (''a'', [''1'', ''2''])]
   \<and> map_of (collect_params [(''b'', []), (''hash'', [''h'']), (''a'', [''1'', ''2''])] []) ''a'' = Some ''1''
   \<and> map_of (collect_params [(''b'', []), (''hash'', [''h'']), (''a'', [''1'', ''2''])] []) ''b'' = None
   \<and> check_string [(''b'', []), (''hash'', [''h'']), (''a'', [''1'', ''2''])] = ''a=1''"
proof -
  let ?q = "[(''b'', []), (''hash'', [''h'']), (''a'', [''1'', ''2''])]"
  have wf: "wf_map ?q"
    by (simp add: wf_map_def)
  have "check_string ?q = ''a=1''"
    by code_simp
  then show ?thesis
    using wf first_value_used [OF wf] by simp
qed

section \<open>The claims about the signature\<close>

lemma Verify_iff: "VerifySignatureFromQuery q S \<longleftrightarrow> provided_hash q = expected_hash q S"
  by (auto simp: VerifySignatureFromQuery_def Let_def hmac_Equal_iff)

lemma length_expected_hash: "length (expected_hash q S) = 64"
  by (simp add: expected_hash_def Let_def length_EncodeToString length_hmac_sha256)

lemma hex_digit_high: "hextable ! unat (drop_bit 4 (v :: byte)) \<in> set hextable"
proof -
  have "unat v < 256"
    by (rule unat_byte_less)
  then have "unat (drop_bit 4 v) < 16"
    unfolding unat_drop_bit_eq by (simp add: drop_bit_eq_div)
  then show ?thesis
    by (intro nth_mem) (simp add: hextable_def)
qed

lemma hex_digit_low: "hextable ! unat ((v :: byte) AND 0x0f) \<in> set hextable"
proof -
  have "unat (v AND 0x0f) \<le> unat (0x0f :: byte)"
    by (rule word_and_le1 [THEN word_le_nat_alt [THEN iffD1]])
  then have "unat (v AND 0x0f) < 16"
    by simp
  then show ?thesis
    by (intro nth_mem) (simp add: hextable_def)
qed

lemma EncodeToString_hex: "set (EncodeToString src) \<subseteq> set hextable"
  by (induction src) (simp_all add: hex_digit_high hex_digit_low)

lemma provided_hash_cases:
  "provided_hash q = (case map_of q ''hash'' of Some (h # rest) \<Rightarrow> h | _ \<Rightarrow> [])"
  by (simp add: provided_hash_def split: option.splits list.splits)

lemma check_string_signed:
  assumes "wf_map P" "''hash'' \<notin> fst ` set P" "wf_map q"
    and q: "map_of q = (map_option (\<lambda>v. [v]) \<circ> map_of P)(''hash'' \<mapsto> hv)"
  shows "check_string q = canonicalize P"
proof -
  have dP: "distinct (map fst P)"
    using assms(1) by (simp add: wf_map_def)
  have look: "map_of q k = map_option (\<lambda>v. [v]) (map_of P k)" if "k \<noteq> ''hash''" for k
    using that by (simp add: q)
  have inP: "k \<in> fst ` set P \<longleftrightarrow> (\<exists>v. map_of P k = Some v)" for k
    by (metis domIff dom_map_of_conv_image_fst not_Some_eq)
  have "k \<in> set (retained_names q) \<longleftrightarrow> k \<in> fst ` set P" for k
  proof (cases "k = ''hash''")
    case True
    have "''hash'' \<notin> set (retained_names q)"
      by (simp add: set_retained_names [OF assms(3)])
    with assms(2) show ?thesis
      unfolding True by blast
  next
    case False
    then show ?thesis
      by (auto simp: set_retained_names [OF assms(3)] look inP)
  qed
  then have "set (retained_names q) = set (map fst P)"
    by auto
  then have s: "sort (retained_names q) = sort (map fst P)"
    using dP assms(3) by (intro sort_cong_set distinct_retained_names)
  have "map (\<lambda>k. k @ ''='' @ first_value q k) (sort (map fst P)) =
        map (\<lambda>k. k @ ''='' @ map_index P k) (sort (map fst P))"
  proof (rule map_cong [OF refl])
    fix k assume "k \<in> set (sort (map fst P))"
    then have k: "k \<in> fst ` set P" by simp
    then have "k \<noteq> ''hash''" using assms(2) by blast
    moreover obtain v where "map_of P k = Some v" using k inP by blast
    ultimately have "first_value q k = map_index P k"
      by (simp add: first_value_def map_index_def look)
    then show "k @ ''='' @ first_value q k = k @ ''='' @ map_index P k" by simp
  qed
  then show ?thesis
    by (simp only: check_string_canonical [OF assms(3)] canonical_spec_def canonicalize_def s)
qed

text \<open>
  C2. Round trip: for every secret \<open>S\<close> and every parameter set \<open>P\<close> without a \<open>hash\<close>
  entry, a query map that holds the entries of \<open>P\<close> and \<open>hash\<close> with the lowercase hex
  HMAC-SHA-256 of the canonical string of \<open>P\<close>, keyed with the SHA-256 of \<open>S\<close>, is
  accepted by \<^verbatim>\<open>VerifySignatureFromQuery\<close> with the secret \<open>S\<close>.
\<close>

theorem signature_round_trip:
  assumes "wf_map P" "''hash'' \<notin> fst ` set P" "wf_map q"
    and "map_of q = (map_option (\<lambda>v. [v]) \<circ> map_of P)(''hash'' \<mapsto> [sign S P])"
  shows "VerifySignatureFromQuery q S"
proof -
  have "check_string q = canonicalize P"
    using assms by (rule check_string_signed)
  then have "expected_hash q S = sign S P"
    by (simp add: expected_hash_def sign_def Let_def)
  moreover have "provided_hash q = sign S P"
    by (simp add: provided_hash_def assms(4))
  ultimately show ?thesis
    by (simp add: Verify_iff)
qed

theorem signature_round_trip_witness:
  "wf_map [(''user_id'', ''42''), (''ts'', ''1000000000''), (''app_id'', ''7'')]
   \<and> ''hash'' \<notin> fst ` set [(''user_id'', ''42''), (''ts'', ''1000000000''), (''app_id'', ''7'')]
   \<and> VerifySignatureFromQuery
        [(''user_id'', [''42'']),
         (''hash'', [sign ''testsecret'' [(''user_id'', ''42''), (''ts'', ''1000000000''), (''app_id'', ''7'')]]),
         (''ts'', [''1000000000'']), (''app_id'', [''7''])]
        ''testsecret''"
proof -
  let ?P = "[(''user_id'', ''42''), (''ts'', ''1000000000''), (''app_id'', ''7'')]"
  let ?q = "[(''user_id'', [''42'']), (''hash'', [sign ''testsecret'' ?P]),
             (''ts'', [''1000000000'']), (''app_id'', [''7''])]"
  have wfP: "wf_map ?P" and nh: "''hash'' \<notin> fst ` set ?P" and wfq: "wf_map ?q"
    by (simp_all add: wf_map_def)
  have m: "map_of ?q = (map_option (\<lambda>v. [v]) \<circ> map_of ?P)(''hash'' \<mapsto> [sign ''testsecret'' ?P])"
    by (auto simp: fun_eq_iff)
  show ?thesis
    using wfP nh signature_round_trip [OF wfP nh wfq m] by simp
qed

text \<open>
  C3. \<^verbatim>\<open>VerifySignatureFromQuery\<close> returns true exactly when the query map has a
  \<open>hash\<close> entry whose first value equals the whole computed signature, which is 64
  lowercase hexadecimal characters; with the \<open>hash\<close> entry absent, without values, or
  with an empty first value, it returns false. The function is total: every query map
  gives true or false.
\<close>

theorem verify_exact_match:
  "(VerifySignatureFromQuery q S \<longleftrightarrow>
      (\<exists>h rest. map_of q ''hash'' = Some (h # rest) \<and> h = expected_hash q S))
   \<and> (map_of q ''hash'' = None \<longrightarrow> \<not> VerifySignatureFromQuery q S)
   \<and> (map_of q ''hash'' = Some [] \<longrightarrow> \<not> VerifySignatureFromQuery q S)
   \<and> (\<forall>rest. map_of q ''hash'' = Some ([] # rest) \<longrightarrow> \<not> VerifySignatureFromQuery q S)
   \<and> length (expected_hash q S) = 64
   \<and> set (expected_hash q S) \<subseteq> set ''0123456789abcdef''"
proof -
  have ne: "expected_hash q S \<noteq> []"
    using length_expected_hash [of q S] by auto
  have hex: "set (expected_hash q S) \<subseteq> set ''0123456789abcdef''"
    using EncodeToString_hex [of "hmac_sha256 (sha256 (bytes_of S)) (bytes_of (check_string q))"]
    by (simp only: expected_hash_def Let_def hextable_def)
  have iff: "VerifySignatureFromQuery q S \<longleftrightarrow>
      (\<exists>h rest. map_of q ''hash'' = Some (h # rest) \<and> h = expected_hash q S)"
    using ne by (auto simp: Verify_iff provided_hash_cases split: option.splits list.splits)
  have "map_of q ''hash'' = None \<longrightarrow> \<not> VerifySignatureFromQuery q S"
    by (simp add: iff)
  moreover have "map_of q ''hash'' = Some [] \<longrightarrow> \<not> VerifySignatureFromQuery q S"
    by (simp add: iff)
  moreover have "\<forall>rest. map_of q ''hash'' = Some ([] # rest) \<longrightarrow> \<not> VerifySignatureFromQuery q S"
    using ne by (auto simp: iff)
  ultimately show ?thesis
    using iff hex length_expected_hash [of q S] by blast
qed

theorem verify_exact_match_witness:
  "map_of [(''a'', [''1''])] ''hash'' = None
   \<and> \<not> VerifySignatureFromQuery [(''a'', [''1''])] ''s''
   \<and> map_of [(''a'', [''1'']), (''hash'', [])] ''hash'' = Some []
   \<and> \<not> VerifySignatureFromQuery [(''a'', [''1'']), (''hash'', [])] ''s''
   \<and> map_of [(''hash'', ['''', ''x'']), (''a'', [''1''])] ''hash'' = Some ([] # [''x''])
   \<and> \<not> VerifySignatureFromQuery [(''hash'', ['''', ''x'']), (''a'', [''1''])] ''s''"
proof -
  have a: "map_of [(''a'', [''1''])] ''hash'' = None"
    by simp
  have b: "map_of [(''a'', [''1'']), (''hash'', [])] ''hash'' = Some []"
    by simp
  have c: "map_of [(''hash'', ['''', ''x'']), (''a'', [''1''])] ''hash'' = Some ([] # [''x''])"
    by simp
  have "\<not> VerifySignatureFromQuery [(''a'', [''1''])] ''s''"
    using verify_exact_match [of "[(''a'', [''1''])]" "''s''"] a by blast
  moreover have "\<not> VerifySignatureFromQuery [(''a'', [''1'']), (''hash'', [])] ''s''"
    using verify_exact_match [of "[(''a'', [''1'']), (''hash'', [])]" "''s''"] b by blast
  moreover have "\<not> VerifySignatureFromQuery [(''hash'', ['''', ''x'']), (''a'', [''1''])] ''s''"
    using verify_exact_match [of "[(''hash'', ['''', ''x'']), (''a'', [''1''])]" "''s''"] c by blast
  ultimately show ?thesis
    using a b c by blast
qed

lemma hmac_vector:
  "EncodeToString (hmac_sha256 (sha256 (bytes_of ''testsecret''))
     (bytes_of (''app_id=7'' @ newline @ ''ts=1000000000'' @ newline @ ''user_id=42''))) =
   ''86f4fd6b771fd2a3cbc8009cf971ce1b968d6196499082c079b6bbd0cdd974ac''"
  by code_simp

lemma check_string_hash_first: "check_string ((''hash'', hv) # q) = check_string q"
  by (simp add: check_string_def)

text \<open>
  C8. For the parameters \<open>user_id = 42\<close>, \<open>ts = 1000000000\<close>, \<open>app_id = 7\<close> the check
  string is \<open>app_id=7\<close>, \<open>ts=1000000000\<close>, \<open>user_id=42\<close> joined by newlines, and the
  expected signature for the secret \<open>testsecret\<close> is the lowercase hex HMAC-SHA-256 of
  that string keyed with the SHA-256 of the secret; its value is computed, and the query
  map that carries it under \<open>hash\<close> is accepted.
\<close>

theorem interoperability_vector:
  "check_string [(''user_id'', [''42'']), (''ts'', [''1000000000'']), (''app_id'', [''7''])] =
     ''app_id=7'' @ newline @ ''ts=1000000000'' @ newline @ ''user_id=42''
   \<and> expected_hash [(''user_id'', [''42'']), (''ts'', [''1000000000'']), (''app_id'', [''7''])]
       ''testsecret'' =
     EncodeToString (hmac_sha256 (sha256 (bytes_of ''testsecret''))
       (bytes_of (''app_id=7'' @ newline @ ''ts=1000000000'' @ newline @ ''user_id=42'')))
   \<and> expected_hash [(''user_id'', [''42'']), (''ts'', [''1000000000'']), (''app_id'', [''7''])]
       ''testsecret'' =
     ''86f4fd6b771fd2a3cbc8009cf971ce1b968d6196499082c079b6bbd0cdd974ac''
   \<and> VerifySignatureFromQuery
       [(''hash'', [''86f4fd6b771fd2a3cbc8009cf971ce1b968d6196499082c079b6bbd0cdd974ac'']),
        (''user_id'', [''42'']), (''ts'', [''1000000000'']), (''app_id'', [''7''])]
       ''testsecret''"
proof -
  let ?q = "[(''user_id'', [''42'']), (''ts'', [''1000000000'']), (''app_id'', [''7''])]"
  let ?h = "''86f4fd6b771fd2a3cbc8009cf971ce1b968d6196499082c079b6bbd0cdd974ac''"
  have cs: "check_string ?q =
      ''app_id=7'' @ newline @ ''ts=1000000000'' @ newline @ ''user_id=42''"
    by code_simp
  have e1: "expected_hash ?q ''testsecret'' =
      EncodeToString (hmac_sha256 (sha256 (bytes_of ''testsecret''))
        (bytes_of (''app_id=7'' @ newline @ ''ts=1000000000'' @ newline @ ''user_id=42'')))"
    by (simp only: expected_hash_def Let_def cs)
  have e2: "expected_hash ?q ''testsecret'' = ?h"
    by (simp only: e1 hmac_vector)
  have "expected_hash ((''hash'', [?h]) # ?q) ''testsecret'' = expected_hash ?q ''testsecret''"
    by (simp only: expected_hash_def check_string_hash_first)
  moreover have "provided_hash ((''hash'', [?h]) # ?q) = ?h"
    by (simp add: provided_hash_def)
  ultimately have "VerifySignatureFromQuery ((''hash'', [?h]) # ?q) ''testsecret''"
    by (simp only: Verify_iff e2)
  then show ?thesis
    using cs e1 e2 by (simp only: simp_thms)
qed

section \<open>The claims about the timestamp\<close>

lemma ValidateTimestamp_wrap:
  "ValidateTimestamp now s \<longleftrightarrow>
     (\<exists>t. int64_of_text s = Some t \<and> - 60 \<le> wrap64 (sint now - t) \<and> wrap64 (sint now - t) \<le> 300)"
proof (cases "int64_of_text s")
  case None
  then have "snd (ParseInt s) \<noteq> None"
    using ParseInt_spec [of s] by simp
  then have "\<not> ValidateTimestamp now s"
    by (auto simp: ValidateTimestamp_def split: prod.splits option.splits)
  then show ?thesis
    using None by simp
next
  case (Some t)
  then obtain n where n: "ParseInt s = (n, None)" "sint n = t"
    using ParseInt_spec [of s] by auto
  have a: "now - n <s - 60 \<longleftrightarrow> wrap64 (sint now - t) < - 60"
    by (simp add: word_sless_alt sint_diff_wrap64 n(2))
  have b: "SIGNATURE_MAX_AGE <s now - n \<longleftrightarrow> 300 < wrap64 (sint now - t)"
    by (simp add: word_sless_alt sint_diff_wrap64 n(2) SIGNATURE_MAX_AGE_def)
  have "ValidateTimestamp now s \<longleftrightarrow> \<not> (now - n <s - 60) \<and> \<not> (SIGNATURE_MAX_AGE <s now - n)"
    by (simp add: ValidateTimestamp_def n(1) Let_def)
  then show ?thesis
    unfolding a b using Some by auto
qed

lemma wrap64_window:
  assumes "- (2 ^ 63) + 300 \<le> a" "a \<le> 2 ^ 63 - 61" "- (2 ^ 63) \<le> t" "t < 2 ^ 63"
  shows "- 60 \<le> wrap64 (a - t) \<and> wrap64 (a - t) \<le> 300 \<longleftrightarrow> - 60 \<le> a - t \<and> a - t \<le> 300"
proof -
  consider "a - t < - (2 ^ 63)" | "- (2 ^ 63) \<le> a - t \<and> a - t < 2 ^ 63" | "2 ^ 63 \<le> a - t"
    by linarith
  then show ?thesis
  proof cases
    case 1
    have "wrap64 (a - t) = a - t + 2 ^ 64"
      using assms 1 by (intro wrap64_low) simp_all
    then show ?thesis
      using assms 1 by simp
  next
    case 2
    then have "wrap64 (a - t) = a - t"
      by (intro wrap64_id) simp_all
    then show ?thesis by simp
  next
    case 3
    have "wrap64 (a - t) = a - t - 2 ^ 64"
      using assms 3 by (intro wrap64_high) simp_all
    then show ?thesis
      using assms 3 by simp
  qed
qed

lemma int64_of_text_range:
  "int64_of_text s = Some t \<Longrightarrow> - (2 ^ 63) \<le> t \<and> t < 2 ^ 63"
  by (auto simp: int64_of_text_def Let_def split: if_splits)

text \<open>
  C4. \<^verbatim>\<open>ValidateTimestamp\<close> accepts exactly when the text is a base-10 signed 64-bit
  integer \<open>ts\<close> and the age, the \<^verbatim>\<open>int64\<close> value of \<^verbatim>\<open>now - ts\<close>, lies between -60 and
  the maximum age 300. With the clock \<open>now\<close> (the value of \<^verbatim>\<open>time.Now().Unix()\<close>) at
  least 300 seconds above the least and 61 seconds below the greatest \<^verbatim>\<open>int64\<close>, the age
  is the integer \<open>now - ts\<close>: the function accepts exactly when \<open>-60 \<le> now - ts \<le> 300\<close>,
  so it accepts at the ages 300 and -60 and rejects at the ages 301 and -61.
\<close>

theorem timestamp_window:
  "(ValidateTimestamp now tsStr \<longleftrightarrow>
      (\<exists>ts. int64_of_text tsStr = Some ts \<and>
         - 60 \<le> wrap64 (sint now - ts) \<and> wrap64 (sint now - ts) \<le> 300))
   \<and> (- (2 ^ 63) + 300 \<le> sint now \<and> sint now \<le> 2 ^ 63 - 61 \<longrightarrow>
       (ValidateTimestamp now tsStr \<longleftrightarrow>
          (\<exists>ts. int64_of_text tsStr = Some ts \<and> - 60 \<le> sint now - ts \<and> sint now - ts \<le> 300))
       \<and> (\<forall>ts. int64_of_text tsStr = Some ts \<longrightarrow>
             (sint now - ts = 300 \<longrightarrow> ValidateTimestamp now tsStr) \<and>
             (sint now - ts = 301 \<longrightarrow> \<not> ValidateTimestamp now tsStr) \<and>
             (sint now - ts = - 60 \<longrightarrow> ValidateTimestamp now tsStr) \<and>
             (sint now - ts = - 61 \<longrightarrow> \<not> ValidateTimestamp now tsStr)))"
proof -
  have ranged: "(ValidateTimestamp now tsStr \<longleftrightarrow>
          (\<exists>ts. int64_of_text tsStr = Some ts \<and> - 60 \<le> sint now - ts \<and> sint now - ts \<le> 300))
       \<and> (\<forall>ts. int64_of_text tsStr = Some ts \<longrightarrow>
             (sint now - ts = 300 \<longrightarrow> ValidateTimestamp now tsStr) \<and>
             (sint now - ts = 301 \<longrightarrow> \<not> ValidateTimestamp now tsStr) \<and>
             (sint now - ts = - 60 \<longrightarrow> ValidateTimestamp now tsStr) \<and>
             (sint now - ts = - 61 \<longrightarrow> \<not> ValidateTimestamp now tsStr))"
    if clock: "- (2 ^ 63) + 300 \<le> sint now" "sint now \<le> 2 ^ 63 - 61"
  proof -
    have w: "- 60 \<le> wrap64 (sint now - ts) \<and> wrap64 (sint now - ts) \<le> 300 \<longleftrightarrow>
             - 60 \<le> sint now - ts \<and> sint now - ts \<le> 300"
      if "int64_of_text tsStr = Some ts" for ts
      using clock int64_of_text_range [OF that] by (intro wrap64_window) simp_all
    have iff: "ValidateTimestamp now tsStr \<longleftrightarrow>
        (\<exists>ts. int64_of_text tsStr = Some ts \<and> - 60 \<le> sint now - ts \<and> sint now - ts \<le> 300)"
      unfolding ValidateTimestamp_wrap using w by blast
    show ?thesis
      unfolding iff [symmetric] by (auto simp: iff)
  qed
  then show ?thesis
    using ValidateTimestamp_wrap [of now tsStr] by blast
qed

theorem timestamp_window_witness:
  "- (2 ^ 63) + 300 \<le> sint (1700000000 :: 64 word) \<and> sint (1700000000 :: 64 word) \<le> 2 ^ 63 - 61
   \<and> ValidateTimestamp 1700000000 ''1699999700''
   \<and> \<not> ValidateTimestamp 1700000000 ''1699999699''
   \<and> ValidateTimestamp 1700000000 ''1700000060''
   \<and> \<not> ValidateTimestamp 1700000000 ''1700000061''"
proof -
  have lo: "- (2 ^ 63) + 300 \<le> sint (1700000000 :: 64 word)"
    and hi: "sint (1700000000 :: 64 word) \<le> 2 ^ 63 - 61"
    by simp_all
  have s: "sint (1700000000 :: 64 word) = 1700000000"
    by simp
  have p: "int64_of_text ''1699999700'' = Some 1699999700"
    "int64_of_text ''1699999699'' = Some 1699999699"
    "int64_of_text ''1700000060'' = Some 1700000060"
    "int64_of_text ''1700000061'' = Some 1700000061"
    by (simp_all add: int64_of_text_def decimal_from_def is_digit_def)
  have "ValidateTimestamp 1700000000 ''1699999700''"
    using timestamp_window [of 1700000000 "''1699999700''"] lo hi by (simp only: p s) (simp add: wrap64_def)
  moreover have "\<not> ValidateTimestamp 1700000000 ''1699999699''"
    using timestamp_window [of 1700000000 "''1699999699''"] lo hi by (simp only: p s) (simp add: wrap64_def)
  moreover have "ValidateTimestamp 1700000000 ''1700000060''"
    using timestamp_window [of 1700000000 "''1700000060''"] lo hi by (simp only: p s) (simp add: wrap64_def)
  moreover have "\<not> ValidateTimestamp 1700000000 ''1700000061''"
    using timestamp_window [of 1700000000 "''1700000061''"] lo hi by (simp only: p s) (simp add: wrap64_def)
  ultimately show ?thesis
    using lo hi by blast
qed

text \<open>
  C5. For every text that is not a base-10 signed 64-bit integer, whatever the clock,
  \<^verbatim>\<open>ValidateTimestamp\<close> returns false: so for the empty text, for text that is not a
  number, and for a number beyond 64 bits. The parse error is a value of the model, as
  the error result is in the source; no input makes the function fail.
\<close>

theorem malformed_timestamp_rejected:
  "(int64_of_text tsStr = None \<longrightarrow> \<not> ValidateTimestamp now tsStr)
   \<and> \<not> ValidateTimestamp now []
   \<and> \<not> ValidateTimestamp now ''not-a-number''
   \<and> \<not> ValidateTimestamp now ''9223372036854775808''
   \<and> \<not> ValidateTimestamp now ''-9223372036854775809''"
proof -
  have rej: "int64_of_text s = None \<Longrightarrow> \<not> ValidateTimestamp now s" for s
    by (simp add: ValidateTimestamp_wrap)
  have "int64_of_text [] = None" "int64_of_text ''not-a-number'' = None"
    "int64_of_text ''9223372036854775808'' = None"
    "int64_of_text ''-9223372036854775809'' = None"
    by (simp_all add: int64_of_text_def decimal_from_def is_digit_def)
  then show ?thesis
    using rej by blast
qed

theorem malformed_timestamp_rejected_witness:
  "int64_of_text ''12a'' = None \<and> \<not> ValidateTimestamp 1700000000 ''12a''"
proof -
  have n: "int64_of_text ''12a'' = None"
    by (simp add: int64_of_text_def decimal_from_def is_digit_def)
  then show ?thesis
    using malformed_timestamp_rejected [of "''12a''" 1700000000] by blast
qed

text \<open>
  Outside that range of the clock the \<^verbatim>\<open>int64\<close> subtraction wraps around: at the greatest
  \<^verbatim>\<open>int64\<close> clock the least \<^verbatim>\<open>int64\<close> timestamp has the age -1 and is accepted.
\<close>

lemma timestamp_wraps_at_extreme_clock:
  "ValidateTimestamp 9223372036854775807 ''-9223372036854775808''"
  by code_simp

end
